theory Spec2Isabelle
  imports Main "HOL-Library.Word"
begin

unbundle bit_operations_syntax

section \<open>The Turing stream cipher of package \<open>turing\<close>\<close>

text \<open>
  A shallow embedding of the Go package: \<open>util.go\<close> (octet and rotation helpers) and the
  cipher file (\<open>Cipher\<close>, \<open>NewCipher\<close>, \<open>Reset\<close>, \<open>XORKeyStream\<close>, \<open>nextRound\<close>,
  \<open>clockRegister\<close>, \<open>keyedS\<close>, \<open>initKey\<close>, \<open>initIV\<close>, \<open>fixedS\<close>, \<open>hadamard\<close>).

  Go's \<open>uint32\<close> and \<open>byte\<close> are words of 32 and 8 bits: \<open>+\<close> wraps, \<open>push_bit\<close> and
  \<open>drop_bit\<close> are \<open><<\<close> and \<open>>>\<close> (a shift count of 32 or more gives 0, as in Go).
  Shift counts have Go type \<open>uint\<close>; they are 64-bit words here, so that \<open>24 - n*8\<close> and
  \<open>32 - shift\<close> wrap around as they do in the program.
\<close>

type_synonym byte = "8 word"
type_synonym uint32 = "32 word"
type_synonym uint = "64 word"

subsection \<open>Constants\<close>

abbreviation (input) reglen :: nat where "reglen \<equiv> 17"
abbreviation (input) minkey :: nat where "minkey \<equiv> 8"
abbreviation (input) maxkey :: nat where "maxkey \<equiv> 32"
abbreviation (input) maxiv :: nat where "maxiv \<equiv> 48"
abbreviation (input) confounder :: nat where "confounder \<equiv> 0x1020300"

text \<open>
  Modelled from the spec: the static tables \<open>sbox\<close>, \<open>qbox\<close> and \<open>mtab\<close>. Their literals
  are not among the sources; the spec describes a substitution box of 256 byte-sized entries,
  a mixing box of 256 word-sized entries and a fixed 256-entry word table used when the
  register is clocked. The code indexes each of them with a byte (or with the top byte of a
  word), so a 256-entry array is a function on bytes. The tables are a parameter of every
  function that reads them; nothing below depends on their contents.
\<close>

record Tables =
  sbox :: "byte \<Rightarrow> byte"
  qbox :: "byte \<Rightarrow> uint32"
  mtab :: "byte \<Rightarrow> uint32"

subsection \<open>The cipher state and its failures\<close>

text \<open>
  \<open>Cipher\<close> has a slice \<open>key\<close>, the arrays \<open>keybox [4][256]uint32\<close>, \<open>reg [17]uint32\<close>,
  \<open>buffer [20]byte\<close> and the integer \<open>bufpos\<close>. Arrays are lists here; the lengths that
  Go's array types fix are collected in \<open>Cipher_shape\<close>.
\<close>

record Cipher =
  key :: "uint32 list"
  keybox :: "uint32 list list"
  reg :: "uint32 list"
  buffer :: "byte list"
  bufpos :: int

definition Cipher_shape :: "Cipher \<Rightarrow> bool" where
  "Cipher_shape c \<longleftrightarrow>
     length (reg c) = reglen \<and> length (buffer c) = 20 \<and>
     length (keybox c) = 4 \<and> list_all (\<lambda>t. length t = 256) (keybox c)"

text \<open>
  \<open>KeySizeError\<close> is the error value \<open>NewCipher\<close> returns (the string is the message without
  the prefix that \<open>Error()\<close> adds); \<open>IndexPanic\<close> is Go's run-time panic for an index out of
  range.
\<close>

datatype failure = KeySizeError string | IndexPanic

text \<open>The zero value \<open>&Cipher{}\<close>.\<close>

definition zeroCipher :: Cipher where
  "zeroCipher = \<lparr>key = [], keybox = replicate 4 (replicate 256 0),
     reg = replicate reglen 0, buffer = replicate 20 0, bufpos = 0\<rparr>"

subsection \<open>util.go\<close>

definition getOctet :: "uint32 \<Rightarrow> uint \<Rightarrow> byte" where
  "getOctet word n = ucast (drop_bit (unat (24 - n * 8)) word AND 0xff)"

definition splitWord :: "uint32 \<Rightarrow> byte list" where
  "splitWord word =
     [ucast (drop_bit 24 word AND 0xff), ucast (drop_bit 16 word AND 0xff),
      ucast (drop_bit 8 word AND 0xff), ucast (word AND 0xff)]"

text \<open>The argument of \<open>joinWord\<close> is a \<open>[4]byte\<close>: a 4-tuple.\<close>

definition joinWord :: "byte \<times> byte \<times> byte \<times> byte \<Rightarrow> uint32" where
  "joinWord octets = (case octets of (o0, o1, o2, o3) \<Rightarrow>
     push_bit 24 (ucast o0) OR push_bit 16 (ucast o1) OR push_bit 8 (ucast o2) OR ucast o3)"

definition rotl :: "uint32 \<Rightarrow> uint \<Rightarrow> uint32" where
  "rotl word shift = push_bit (unat shift) word OR drop_bit (unat (32 - shift)) word"

definition rotr :: "uint32 \<Rightarrow> uint \<Rightarrow> uint32" where
  "rotr word shift = drop_bit (unat shift) word OR push_bit (unat (32 - shift)) word"

subsection \<open>fixedS and hadamard\<close>

definition fixedS_step :: "Tables \<Rightarrow> uint \<Rightarrow> uint32 \<Rightarrow> uint32" where
  "fixedS_step T i word =
     (let shift = i * 8;
          octet = sbox T (getOctet word i)
      in ((word XOR rotl (qbox T octet) shift) AND rotr 0x00ffffff shift)
           OR push_bit (unat (24 - shift)) (ucast octet))"

definition fixedS :: "Tables \<Rightarrow> uint32 \<Rightarrow> uint32" where
  "fixedS T word = fold (fixedS_step T) [0, 1, 2, 3] word"

text \<open>
  \<open>hadamard\<close> sums the words, writes 0 to \<open>words[len(words)-1]\<close> and adds the sum to every
  word. On an empty slice the index \<open>-1\<close> panics.
\<close>

definition hadamard :: "uint32 list \<Rightarrow> failure + uint32 list" where
  "hadamard words =
     (let sum = fold (\<lambda>w s. s + w) words 0
      in if words = [] then Inl IndexPanic
         else Inr (map (\<lambda>w. w + sum) (words[length words - 1 := 0])))"

subsection \<open>The register and the round\<close>

definition clockRegister :: "Tables \<Rightarrow> Cipher \<Rightarrow> Cipher" where
  "clockRegister T c =
     (let word = reg c ! 15 XOR reg c ! 4 XOR push_bit 8 (reg c ! 0)
                   XOR mtab T (ucast (drop_bit 24 (reg c ! 0)));
          shifted = fold (\<lambda>i r. r[i := r ! (i + 1)]) [0..<reglen - 1] (reg c)
      in c\<lparr>reg := shifted[reglen - 1 := word]\<rparr>)"

definition keyedS :: "Cipher \<Rightarrow> uint32 \<Rightarrow> uint \<Rightarrow> uint32" where
  "keyedS c word rot =
     fold (\<lambda>(i, octet) s. s XOR keybox c ! i ! unat octet)
       (enumerate 0 (splitWord (rotl word rot))) 0"

text \<open>
  \<open>copy(buf[lo:hi], src)\<close> copies \<open>min (hi - lo) (len src)\<close> elements, one by one.
\<close>

definition copy_into :: "'a list \<Rightarrow> nat \<Rightarrow> nat \<Rightarrow> 'a list \<Rightarrow> 'a list" where
  "copy_into buf lo hi src =
     fold (\<lambda>k b. b[lo + k := src ! k]) [0..<min (hi - lo) (length src)] buf"

definition nextRound :: "Tables \<Rightarrow> Cipher \<Rightarrow> Cipher" where
  "nextRound T c0 =
     (let c1 = clockRegister T c0;
          a = reg c1 ! 16; b = reg c1 ! 13; c = reg c1 ! 6; d = reg c1 ! 1; e = reg c1 ! 0;
          e = e + (a + b + c + d);
          a = a + e; b = b + e; c = c + e; d = d + e;
          a' = keyedS c1 a 0; b' = keyedS c1 b 8; c' = keyedS c1 c 16; d' = keyedS c1 d 24;
          e' = keyedS c1 e 0;
          e = e' + (a' + b' + c' + d');
          a = a' + e; b = b' + e; c = c' + e; d = d' + e;
          c2 = clockRegister T c1;
          c3 = clockRegister T c2;
          c4 = clockRegister T c3;
          a = a + reg c4 ! 14; b = b + reg c4 ! 12; c = c + reg c4 ! 8; d = d + reg c4 ! 1;
          e = e + reg c4 ! 0;
          buf = copy_into (buffer c4) 0 4 (splitWord a);
          buf = copy_into buf 4 8 (splitWord b);
          buf = copy_into buf 8 12 (splitWord c);
          buf = copy_into buf 12 16 (splitWord d);
          buf = copy_into buf 16 20 (splitWord e);
          c5 = c4\<lparr>buffer := buf, bufpos := 0\<rparr>
      in clockRegister T c5)"

subsection \<open>Key and IV set-up\<close>

text \<open>One entry \<open>keybox[box][i]\<close> of the keyed S-boxes, from the key words \<open>ks\<close>.\<close>

definition keybox_entry :: "Tables \<Rightarrow> uint32 list \<Rightarrow> nat \<Rightarrow> nat \<Rightarrow> uint32" where
  "keybox_entry T ks box i =
     (let shift = (of_nat (box * 8) :: uint);
          (octet, word) =
             fold (\<lambda>(keypos, k) (octet, word).
                     let octet' = sbox T (getOctet k (of_nat box) XOR octet)
                     in (octet', word XOR rotl (qbox T octet') (of_nat keypos + shift)))
               (enumerate 0 ks) (of_nat i :: byte, 0 :: uint32)
      in (word AND rotr 0x00ffffff shift) OR push_bit (unat (24 - shift)) (ucast octet))"

text \<open>
  The reads \<open>key[i*4] .. key[i*4+3]\<close> are in range for \<open>i < len(key)/4\<close>. The only failure
  of \<open>initKey\<close> is that of \<open>hadamard\<close> on a key of fewer than four bytes.
\<close>

definition quads :: "Tables \<Rightarrow> byte list \<Rightarrow> uint32 list" where
  "quads T bs =
     map (\<lambda>i. fixedS T (joinWord (bs ! (i * 4), bs ! (i * 4 + 1), bs ! (i * 4 + 2), bs ! (i * 4 + 3))))
       [0..<length bs div 4]"

definition initKey :: "Tables \<Rightarrow> byte list \<Rightarrow> Cipher \<Rightarrow> failure + Cipher" where
  "initKey T k c =
     (case hadamard (quads T k) of
        Inl e \<Rightarrow> Inl e
      | Inr ks \<Rightarrow>
          Inr (c\<lparr>key := ks,
                 keybox := map (\<lambda>box. map (keybox_entry T ks box) [0..<256]) [0..<4]\<rparr>))"

text \<open>
  \<open>store_words ws rg r\<close> is the loop \<open>for each w: reg[r] = w; r++\<close>, which panics as soon
  as \<open>r\<close> leaves the register.
\<close>

fun store_words :: "uint32 list \<Rightarrow> uint32 list \<Rightarrow> nat \<Rightarrow> failure + (uint32 list \<times> nat)" where
  "store_words [] rg r = Inr (rg, r)"
| "store_words (w # ws) rg r =
     (if r < length rg then store_words ws (rg[r := w]) (r + 1) else Inl IndexPanic)"

text \<open>
  The loop \<open>for i := 0; r < reglen; i++\<close> of \<open>initIV\<close>. It starts after \<open>r++\<close>, so
  \<open>1 \<le> r\<close> and \<open>i < r\<close> throughout.
\<close>

function fill_reg :: "Cipher \<Rightarrow> nat \<Rightarrow> nat \<Rightarrow> Cipher" where
  "fill_reg c i r =
     (if r < reglen
      then fill_reg (c\<lparr>reg := (reg c)[r := keyedS c (reg c ! i + reg c ! (r - 1)) 0]\<rparr>) (i + 1) (r + 1)
      else c)"
  by pat_completeness auto
termination
  by (relation "measure (\<lambda>(c, i, r). reglen - r)") auto

declare fill_reg.simps [simp del]

definition initIV :: "Tables \<Rightarrow> byte list \<Rightarrow> Cipher \<Rightarrow> failure + Cipher" where
  "initIV T iv c =
     (case store_words (quads T iv) (reg c) 0 of
        Inl e \<Rightarrow> Inl e
      | Inr (rg1, r1) \<Rightarrow>
     (case store_words (key c) rg1 r1 of
        Inl e \<Rightarrow> Inl e
      | Inr (rg2, r2) \<Rightarrow>
     if \<not> r2 < length rg2 then Inl IndexPanic
     else
       let rg3 = rg2[r2 := of_nat (confounder OR push_bit 4 (length (key c)) OR length iv div 4)];
           c4 = fill_reg (c\<lparr>reg := rg3\<rparr>) 0 (r2 + 1)
       in (case hadamard (reg c4) of
             Inl e \<Rightarrow> Inl e
           | Inr rg5 \<Rightarrow> Inr (c4\<lparr>reg := rg5\<rparr>))))"

subsection \<open>The public operations\<close>

text \<open>
  The messages built with \<open>fmt.Sprintf\<close> are written with \<open>minkey\<close>, \<open>maxkey\<close> and \<open>maxiv\<close>
  printed in decimal.
\<close>

definition NewCipher :: "Tables \<Rightarrow> byte list \<Rightarrow> byte list \<Rightarrow> failure + Cipher" where
  "NewCipher T k iv =
     (let keylen = length k; ivlen = length iv
      in if keylen mod 4 \<noteq> 0 then Inl (KeySizeError ''key size must be a multiple of 4'')
         else if ivlen mod 4 \<noteq> 0 then Inl (KeySizeError ''iv size must be a multiple of 4'')
         else if keylen < minkey then Inl (KeySizeError ''key size must be >= 8'')
         else if keylen > maxkey then Inl (KeySizeError ''key size must be <= 32'')
         else if keylen + ivlen > maxiv
           then Inl (KeySizeError ''combined key and iv sizes must be <= 48'')
         else (case initKey T k zeroCipher of
                 Inl e \<Rightarrow> Inl e
               | Inr c1 \<Rightarrow>
                   (case initIV T iv c1 of
                      Inl e \<Rightarrow> Inl e
                    | Inr c2 \<Rightarrow> Inr (nextRound T c2))))"

definition Reset :: "Cipher \<Rightarrow> Cipher" where
  "Reset c =
     c\<lparr>key := map (\<lambda>_. 0) (key c),
       keybox := map (map (\<lambda>_. 0)) (keybox c),
       buffer := map (\<lambda>_. 0) (buffer c),
       reg := map (\<lambda>_. 0) (reg c),
       bufpos := 0\<rparr>"

text \<open>
  The loop \<open>for i := range src\<close> of \<open>XORKeyStream\<close>, from index \<open>i\<close> on; the first argument is
  what is left of \<open>src\<close>. Reading \<open>buffer[bufpos]\<close> panics when \<open>bufpos\<close> is not an index of
  the buffer, and writing \<open>dst[i]\<close> panics when \<open>dst\<close> is shorter than \<open>src\<close>. \<open>src[i]\<close> is
  read before \<open>dst[i]\<close> is written and no other element of \<open>dst\<close> is touched in that step, so
  the model is also that of a call with \<open>dst\<close> and \<open>src\<close> the same slice (pass the same list
  twice); partially overlapping slices are not modelled.
\<close>

fun XORKeyStream_loop ::
  "Tables \<Rightarrow> byte list \<Rightarrow> nat \<Rightarrow> Cipher \<Rightarrow> byte list \<Rightarrow> failure + (Cipher \<times> byte list)" where
  "XORKeyStream_loop T [] i c dst = Inr (c, dst)"
| "XORKeyStream_loop T (s # src) i c dst =
     (let c1 = (if bufpos c = int (length (buffer c)) then nextRound T c else c)
      in if bufpos c1 < 0 \<or> int (length (buffer c1)) \<le> bufpos c1 then Inl IndexPanic
         else if length dst \<le> i then Inl IndexPanic
         else XORKeyStream_loop T src (i + 1) (c1\<lparr>bufpos := bufpos c1 + 1\<rparr>)
                (dst[i := s XOR buffer c1 ! nat (bufpos c1)]))"

definition XORKeyStream ::
  "Tables \<Rightarrow> Cipher \<Rightarrow> byte list \<Rightarrow> byte list \<Rightarrow> failure + (Cipher \<times> byte list)" where
  "XORKeyStream T c dst src = XORKeyStream_loop T src 0 c dst"

subsection \<open>Notions used to state the properties\<close>

text \<open>
  The state invariant of a constructed cipher: the array lengths, a key of 2 to 8 words and
  a cursor between 0 and 20.
\<close>

definition Cipher_inv :: "Cipher \<Rightarrow> bool" where
  "Cipher_inv c \<longleftrightarrow>
     Cipher_shape c \<and> 2 \<le> length (key c) \<and> length (key c) \<le> 8 \<and>
     0 \<le> bufpos c \<and> bufpos c \<le> 20"

text \<open>What \<open>XORKeyStream\<close> needs of the state to index the buffer.\<close>

definition stream_ok :: "Cipher \<Rightarrow> bool" where
  "stream_ok c \<longleftrightarrow> length (buffer c) = 20 \<and> 0 \<le> bufpos c \<and> bufpos c \<le> 20"


text \<open>
  The head of the loop body of \<open>XORKeyStream\<close> (a round when the buffer is used up), and
  the state and the keystream bytes after \<open>n\<close> iterations of that loop.
\<close>

definition refill :: "Tables \<Rightarrow> Cipher \<Rightarrow> Cipher" where
  "refill T c = (if bufpos c = int (length (buffer c)) then nextRound T c else c)"

fun consume :: "Tables \<Rightarrow> Cipher \<Rightarrow> nat \<Rightarrow> Cipher \<times> byte list" where
  "consume T c 0 = (c, [])"
| "consume T c (Suc n) =
     (let c1 = (if bufpos c = int (length (buffer c)) then nextRound T c else c);
          (c2, ks) = consume T (c1\<lparr>bufpos := bufpos c1 + 1\<rparr>) n
      in (c2, buffer c1 ! nat (bufpos c1) # ks))"

text \<open>
  Concrete inputs for evaluating the functions: stand-in tables (entry 0 of \<open>mtab\<close> is 0, as
  in any table of multiples), a state whose register holds a single 1 at position 16, and a
  state with a non-zero key, key boxes, register, buffer and cursor, and a key and an IV of
  valid sizes.
\<close>

definition test_tables :: Tables where
  "test_tables = \<lparr>sbox = (\<lambda>b. b), qbox = ucast, mtab = ucast\<rparr>"

definition tap_cipher :: Cipher where
  "tap_cipher = zeroCipher\<lparr>reg := [0,0,0,0,0,0,0,0,0,0,0,0,0,0,0,0,1]\<rparr>"

definition test_cipher :: Cipher where
  "test_cipher = \<lparr>key = [1, 2], keybox = replicate 4 (map of_nat [0..<256]),
     reg = [1,2,3,4,5,6,7,8,9,10,11,12,13,14,15,16,17],
     buffer = [10,11,12,13,14,15,16,17,18,19,20,21,22,23,24,25,26,27,28,29], bufpos = 5\<rparr>"

definition test_key :: "byte list" where
  "test_key = [1, 2, 3, 4, 5, 6, 7, 8]"

definition test_iv :: "byte list" where
  "test_iv = [9, 10, 11, 12]"

section \<open>Lists, octets and the register\<close>

lemma shift_fold:
  "n < length r \<Longrightarrow> fold (\<lambda>i r. r[i := r ! (i + 1)]) [0..<n] r = take n (tl r) @ drop n r"
proof (induction n)
  case 0
  then show ?case by simp
next
  case (Suc n)
  let ?f = "\<lambda>i r. r[i := r ! (i + 1)]"
  have IH: "fold ?f [0..<n] r = take n (tl r) @ drop n r"
    using Suc by simp
  have len: "length (take n (tl r)) = n" using Suc.prems by simp
  have d: "drop n r = r ! n # r ! Suc n # drop (Suc (Suc n)) r"
    using Suc.prems by (simp add: Cons_nth_drop_Suc)
  have t: "take (Suc n) (tl r) = take n (tl r) @ [r ! Suc n]"
    using Suc.prems by (simp add: take_Suc_conv_app_nth nth_tl)
  have "fold ?f [0..<Suc n] r = ?f n (fold ?f [0..<n] r)"
    by simp
  also have "\<dots> = ?f n (take n (tl r) @ r ! n # r ! Suc n # drop (Suc (Suc n)) r)"
    by (simp only: IH d)
  also have "\<dots> = take n (tl r) @ r ! Suc n # r ! Suc n # drop (Suc (Suc n)) r"
    using len by (simp add: nth_append list_update_append)
  also have "\<dots> = take (Suc n) (tl r) @ drop (Suc n) r"
    using Suc.prems by (simp add: t Cons_nth_drop_Suc)
  finally show ?case .
qed






lemma length_fold_update: "length (fold (\<lambda>i r. r[g i := f i r]) xs r) = length r"
  by (induction xs arbitrary: r) simp_all

lemma clockRegister_frame:
  "key (clockRegister T c) = key c" "keybox (clockRegister T c) = keybox c"
  "buffer (clockRegister T c) = buffer c" "bufpos (clockRegister T c) = bufpos c"
  "length (reg (clockRegister T c)) = length (reg c)"
  by (simp_all add: clockRegister_def Let_def length_fold_update)

lemma clockRegister_upd: "clockRegister T c = c\<lparr>reg := reg (clockRegister T c)\<rparr>"
  by (simp add: clockRegister_def Let_def)


lemma length_copy_into: "length (copy_into buf lo hi src) = length buf"
  by (simp add: copy_into_def length_fold_update)


lemma clockRegister_reg:
  assumes "length (reg c) = reglen"
  shows "reg (clockRegister T c) =
     tl (reg c) @ [reg c ! 15 XOR reg c ! 4 XOR push_bit 8 (reg c ! 0)
                   XOR mtab T (ucast (drop_bit 24 (reg c ! 0)))]"
proof -
  have "fold (\<lambda>i r. r[i := r ! (i + 1)]) [0..<16] (reg c) = take 16 (tl (reg c)) @ drop 16 (reg c)"
    using assms by (intro shift_fold) simp
  moreover have "take 16 (tl (reg c)) = tl (reg c)" using assms by simp
  moreover have "length (tl (reg c)) = 16" using assms by simp
  moreover have "length (drop 16 (reg c)) = 1" using assms by simp
  then obtain x where "drop 16 (reg c) = [x]" 
    by (cases "drop 16 (reg c)") auto
  ultimately show ?thesis
    by (simp add: clockRegister_def Let_def list_update_append)
qed



lemma nextRound_frame:
  "key (nextRound T c) = key c" "keybox (nextRound T c) = keybox c"
  "length (reg (nextRound T c)) = length (reg c)"
  "length (buffer (nextRound T c)) = length (buffer c)"
  "bufpos (nextRound T c) = 0"
  by (simp_all add: nextRound_def Let_def clockRegister_frame length_copy_into)

text \<open>
  C1 (as amended). The feedback word is the XOR of register[15] (not register[16]),
  register[4], register[0] shifted left by 8 bits and the table entry indexed by the top byte
  of register[0]; every word moves one position down (the new register is the tail of the old
  one) and the feedback word is placed at position 16. Nothing else of the state changes.
\<close>

theorem clockRegister_feedback:
  assumes "length (reg c) = reglen"
  shows "reg (clockRegister T c) =
           tl (reg c) @ [reg c ! 15 XOR reg c ! 4 XOR push_bit 8 (reg c ! 0)
                          XOR mtab T (ucast (drop_bit 24 (reg c ! 0)))]
         \<and> clockRegister T c = c\<lparr>reg := reg (clockRegister T c)\<rparr>"
  using clockRegister_reg [OF assms] clockRegister_upd by blast

theorem clockRegister_feedback_witness:
  "length (reg test_cipher) = reglen \<and>
   reg (clockRegister test_tables test_cipher) = [2,3,4,5,6,7,8,9,10,11,12,13,14,15,16,17,277]"
proof -
  have h: "length (reg test_cipher) = reglen" by (simp add: test_cipher_def)
  show ?thesis
    using h clockRegister_feedback [OF h, of test_tables]
    by (simp add: test_cipher_def test_tables_def)
qed

text \<open>
  C1 as stated fails: with a single 1 at register[16] the word placed at position 16 is not
  the XOR that starts with register[16].
\<close>

theorem clockRegister_tap16_counterexample:
  "reg (clockRegister test_tables tap_cipher) ! 16 \<noteq>
     reg tap_cipher ! 16 XOR reg tap_cipher ! 4 XOR push_bit 8 (reg tap_cipher ! 0)
       XOR mtab test_tables (ucast (drop_bit 24 (reg tap_cipher ! 0)))"
  by (simp add: clockRegister_reg test_tables_def tap_cipher_def)



section \<open>Reset and the empty request\<close>

lemma shape_test_cipher: "Cipher_shape test_cipher"
  by (simp add: Cipher_shape_def test_cipher_def list_all_iff)

text \<open>
  C7. After \<open>Reset\<close> every word of the key (whose length is kept), every entry of the four
  256-entry key boxes, every word of the 17-word register, every byte of the 20-byte buffer
  and the cursor are zero.
\<close>

theorem Reset_zero:
  assumes "Cipher_shape c"
  shows "key (Reset c) = replicate (length (key c)) 0 \<and>
         keybox (Reset c) = replicate 4 (replicate 256 0) \<and>
         reg (Reset c) = replicate reglen 0 \<and>
         buffer (Reset c) = replicate 20 0 \<and>
         bufpos (Reset c) = 0"
proof -
  have "map (map (\<lambda>_. 0)) (keybox c) = replicate 4 (replicate 256 (0 :: uint32))"
    using assms
    by (intro replicate_eqI) (auto simp: Cipher_shape_def list_all_iff map_replicate_const)
  moreover have "map (\<lambda>_. 0) (reg c) = replicate reglen (0 :: uint32)"
    and "map (\<lambda>_. 0) (buffer c) = replicate 20 (0 :: byte)"
    using assms by (simp_all add: Cipher_shape_def map_replicate_const)
  ultimately show ?thesis
    by (simp add: Reset_def map_replicate_const)
qed

theorem Reset_zero_witness:
  "Cipher_shape test_cipher \<and> key (Reset test_cipher) = [0, 0] \<and>
   keybox (Reset test_cipher) = replicate 4 (replicate 256 0) \<and>
   reg (Reset test_cipher) = replicate reglen 0 \<and>
   buffer (Reset test_cipher) = replicate 20 0 \<and> bufpos (Reset test_cipher) = 0"
  using Reset_zero [OF shape_test_cipher] shape_test_cipher
  by (simp add: test_cipher_def)

text \<open>
  C9. A call with an empty \<open>src\<close> returns the state and \<open>dst\<close> as they were, whatever the
  cursor is: the loop body, and with it \<open>nextRound\<close>, is never entered.
\<close>

theorem XORKeyStream_empty: "XORKeyStream T c dst [] = Inr (c, dst)"
  by (simp add: XORKeyStream_def)

section \<open>The keystream loop\<close>

lemma refill_ok:
  assumes "stream_ok c"
  shows "length (buffer (refill T c)) = 20" "0 \<le> bufpos (refill T c)" "bufpos (refill T c) < 20"
  using assms by (auto simp: refill_def stream_ok_def nextRound_frame)

lemma step_ok: "stream_ok c \<Longrightarrow> stream_ok (refill T c\<lparr>bufpos := bufpos (refill T c) + 1\<rparr>)"
  using refill_ok [of c T] by (simp add: stream_ok_def)

lemma consume_Suc:
  "consume T c (Suc n) =
     (fst (consume T (refill T c\<lparr>bufpos := bufpos (refill T c) + 1\<rparr>) n),
      buffer (refill T c) ! nat (bufpos (refill T c))
        # snd (consume T (refill T c\<lparr>bufpos := bufpos (refill T c) + 1\<rparr>) n))"
  by (simp add: refill_def Let_def split_beta)

lemma loop_Cons:
  "stream_ok c \<Longrightarrow> i < length dst \<Longrightarrow>
   XORKeyStream_loop T (s # src) i c dst =
     XORKeyStream_loop T src (Suc i) (refill T c\<lparr>bufpos := bufpos (refill T c) + 1\<rparr>)
       (dst[i := s XOR buffer (refill T c) ! nat (bufpos (refill T c))])"
  using refill_ok [of c T] by (simp add: refill_def Let_def)

declare consume.simps(2) [simp del]
declare XORKeyStream_loop.simps(2) [simp del]

lemma consume_ok: "stream_ok c \<Longrightarrow> stream_ok (fst (consume T c n))"
proof (induction n arbitrary: c)
  case 0
  then show ?case by simp
next
  case (Suc n)
  show ?case
    by (simp only: consume_Suc fst_conv) (rule Suc.IH [OF step_ok [OF Suc.prems]])
qed

lemma length_consume: "length (snd (consume T c n)) = n"
proof (induction n arbitrary: c)
  case 0
  then show ?case by simp
next
  case (Suc n)
  show ?case
    by (simp only: consume_Suc snd_conv list.size Suc.IH)
qed

lemma loop_consume:
  "stream_ok c \<Longrightarrow> i + length src \<le> length dst \<Longrightarrow>
   XORKeyStream_loop T src i c dst =
     Inr (fst (consume T c (length src)),
          take i dst @ map2 (XOR) src (snd (consume T c (length src))) @ drop (i + length src) dst)"
proof (induction src arbitrary: i c dst)
  case Nil
  then show ?case by simp
next
  case (Cons s src)
  let ?c' = "refill T c\<lparr>bufpos := bufpos (refill T c) + 1\<rparr>"
  let ?b = "buffer (refill T c) ! nat (bufpos (refill T c))"
  have i: "i < length dst" using Cons.prems by simp
  have ok: "stream_ok ?c'" by (rule step_ok [OF Cons.prems(1)])
  have len: "Suc i + length src \<le> length (dst[i := s XOR ?b])" using Cons.prems by simp
  have "XORKeyStream_loop T (s # src) i c dst = XORKeyStream_loop T src (Suc i) ?c' (dst[i := s XOR ?b])"
    by (rule loop_Cons [OF Cons.prems(1) i])
  also have "\<dots> = Inr (fst (consume T ?c' (length src)),
       take (Suc i) (dst[i := s XOR ?b]) @ map2 (XOR) src (snd (consume T ?c' (length src)))
         @ drop (Suc i + length src) (dst[i := s XOR ?b]))"
    by (rule Cons.IH [OF ok len])
  also have "take (Suc i) (dst[i := s XOR ?b]) = take i dst @ [s XOR ?b]"
    using i by (simp add: take_Suc_conv_app_nth)
  also have "drop (Suc i + length src) (dst[i := s XOR ?b]) = drop (i + length (s # src)) dst"
    by simp
  finally show ?case
    by (simp add: consume_Suc)
qed

lemma consume_add:
  "consume T c (m + n) =
     (fst (consume T (fst (consume T c m)) n),
      snd (consume T c m) @ snd (consume T (fst (consume T c m)) n))"
proof (induction m arbitrary: c)
  case 0
  then show ?case by simp
next
  case (Suc m)
  show ?case
    by (simp add: consume_Suc Suc.IH)
qed

lemma consume_small:
  "stream_ok c \<Longrightarrow> nat (bufpos c) + n \<le> 20 \<Longrightarrow>
   consume T c n = (c\<lparr>bufpos := bufpos c + int n\<rparr>, take n (drop (nat (bufpos c)) (buffer c)))"
proof (induction n arbitrary: c)
  case 0
  then show ?case by simp
next
  case (Suc n)
  have lt: "bufpos c < 20" and ge: "0 \<le> bufpos c" and len: "length (buffer c) = 20"
    using Suc.prems by (simp_all add: stream_ok_def)
  have rf: "refill T c = c" using lt len by (simp add: refill_def)
  let ?c' = "c\<lparr>bufpos := bufpos c + 1\<rparr>"
  have ok: "stream_ok ?c'" using lt ge len by (simp add: stream_ok_def)
  have bound: "nat (bufpos ?c') + n \<le> 20" using Suc.prems(2) ge by simp
  have IH: "consume T ?c' n = (?c'\<lparr>bufpos := bufpos ?c' + int n\<rparr>, take n (drop (nat (bufpos ?c')) (buffer ?c')))"
    by (rule Suc.IH [OF ok bound])
  have idx: "nat (bufpos c + 1) = Suc (nat (bufpos c))" using ge by simp
  have "nat (bufpos c) < length (buffer c)" using lt ge len by simp
  then have "buffer c ! nat (bufpos c) # take n (drop (Suc (nat (bufpos c))) (buffer c))
      = take (Suc n) (drop (nat (bufpos c)) (buffer c))"
    by (simp add: Cons_nth_drop_Suc [symmetric])
  then show ?case
    by (simp add: consume_Suc rf IH idx add.assoc)
qed

lemma map2_xor_twice:
  "length ks = length (src :: byte list) \<Longrightarrow> map2 (XOR) (map2 (XOR) src ks) ks = src"
proof (induction src arbitrary: ks)
  case Nil
  then show ?case by simp
next
  case (Cons s src)
  then obtain k ks' where ks: "ks = k # ks'" by (cases ks) auto
  with Cons show ?case by (simp add: xor.assoc)
qed

lemma XORKeyStream_consume:
  assumes "stream_ok c" and "length src \<le> length dst"
  shows "XORKeyStream T c dst src =
     Inr (fst (consume T c (length src)),
          map2 (XOR) src (snd (consume T c (length src))) @ drop (length src) dst)"
  using loop_consume [of c 0 src dst T] assms by (simp add: XORKeyStream_def)

lemma Cipher_inv_stream_ok: "Cipher_inv c \<Longrightarrow> stream_ok c"
  by (simp add: Cipher_inv_def Cipher_shape_def stream_ok_def)

lemma consume_frame:
  "key (fst (consume T c n)) = key c \<and> keybox (fst (consume T c n)) = keybox c \<and>
   length (reg (fst (consume T c n))) = length (reg c)"
proof (induction n arbitrary: c)
  case 0
  then show ?case by simp
next
  case (Suc n)
  have "key (refill T c) = key c" "keybox (refill T c) = keybox c"
    "length (reg (refill T c)) = length (reg c)"
    by (simp_all add: refill_def nextRound_frame)
  then show ?case
    using Suc.IH [of "refill T c\<lparr>bufpos := bufpos (refill T c) + 1\<rparr>"]
    by (simp add: consume_Suc)
qed

lemma consume_inv: "Cipher_inv c \<Longrightarrow> Cipher_inv (fst (consume T c n))"
  using consume_ok [OF Cipher_inv_stream_ok, of c T n] consume_frame [of T c n]
  by (simp add: Cipher_inv_def Cipher_shape_def stream_ok_def)

section \<open>Construction\<close>

lemma hadamard_Inr:
  "words \<noteq> [] \<Longrightarrow> \<exists>ws. hadamard words = Inr ws \<and> length ws = length words"
  by (simp add: hadamard_def Let_def)

lemma length_quads: "length (quads T bs) = length bs div 4"
  by (simp add: quads_def)

lemma initKey_ok:
  assumes "4 \<le> length k"
  shows "\<exists>c1. initKey T k c = Inr c1 \<and> length (key c1) = length k div 4 \<and>
           reg c1 = reg c \<and> buffer c1 = buffer c \<and> bufpos c1 = bufpos c \<and>
           length (keybox c1) = 4 \<and> list_all (\<lambda>t. length t = 256) (keybox c1)"
proof -
  have "quads T k \<noteq> []"
  proof
    assume "quads T k = []"
    then have "length k div 4 = 0" using length_quads [of T k] by simp
    with assms show False by simp
  qed
  then obtain ks where ks: "hadamard (quads T k) = Inr ks" "length ks = length k div 4"
    using hadamard_Inr [of "quads T k"] by (auto simp: length_quads)
  show ?thesis
    by (simp add: initKey_def ks list_all_iff)
qed

lemma store_words_ok:
  "r + length ws \<le> length rg \<Longrightarrow>
   \<exists>rg'. store_words ws rg r = Inr (rg', r + length ws) \<and> length rg' = length rg"
proof (induction ws arbitrary: rg r)
  case Nil
  then show ?case by simp
next
  case (Cons w ws)
  then have "r < length rg" and "Suc r + length ws \<le> length (rg[r := w])" by simp_all
  with Cons.IH [of "Suc r" "rg[r := w]"] show ?case by auto
qed

lemma fill_reg_frame:
  "key (fill_reg c i r) = key c \<and> keybox (fill_reg c i r) = keybox c \<and>
   buffer (fill_reg c i r) = buffer c \<and> bufpos (fill_reg c i r) = bufpos c \<and>
   length (reg (fill_reg c i r)) = length (reg c)"
proof (induction c i r rule: fill_reg.induct)
  case (1 c i r)
  show ?case
  proof (cases "r < reglen")
    case True
    with 1 show ?thesis by (subst (1 2 3 4 5) fill_reg.simps) simp
  next
    case False
    then show ?thesis by (subst (1 2 3 4 5) fill_reg.simps) simp
  qed
qed

lemma initIV_ok:
  assumes "length (reg c) = reglen" and "length iv div 4 + length (key c) < reglen"
  shows "\<exists>c2. initIV T iv c = Inr c2 \<and> key c2 = key c \<and> keybox c2 = keybox c \<and>
           buffer c2 = buffer c \<and> bufpos c2 = bufpos c \<and> length (reg c2) = reglen"
proof -
  obtain rg1 where 1: "store_words (quads T iv) (reg c) 0 = Inr (rg1, length iv div 4)"
      "length rg1 = reglen"
    using store_words_ok [of 0 "quads T iv" "reg c"] assms by (auto simp: length_quads)
  obtain rg2 where 2: "store_words (key c) rg1 (length iv div 4)
        = Inr (rg2, length iv div 4 + length (key c))" "length rg2 = reglen"
    using store_words_ok [of "length iv div 4" "key c" rg1] assms 1 by auto
  let ?rg3 = "rg2[length iv div 4 + length (key c) :=
      of_nat (confounder OR push_bit 4 (length (key c)) OR length iv div 4)]"
  let ?c4 = "fill_reg (c\<lparr>reg := ?rg3\<rparr>) 0 (length iv div 4 + length (key c) + 1)"
  have fr: "key ?c4 = key c" "keybox ?c4 = keybox c" "buffer ?c4 = buffer c"
    "bufpos ?c4 = bufpos c" "length (reg ?c4) = reglen"
    using fill_reg_frame [of "c\<lparr>reg := ?rg3\<rparr>" 0 "length iv div 4 + length (key c) + 1"] 2
    by simp_all
  then have "reg ?c4 \<noteq> []" by auto
  then obtain rg5 where 5: "hadamard (reg ?c4) = Inr rg5" "length rg5 = reglen"
    using hadamard_Inr [of "reg ?c4"] fr by auto
  have "initIV T iv c = Inr (?c4\<lparr>reg := rg5\<rparr>)"
    using assms(2) 5(1) by (simp add: initIV_def 1 2 Let_def)
  then show ?thesis
    using fr 5 by simp
qed

lemma NewCipher_valid:
  assumes "length k mod 4 = 0" "length iv mod 4 = 0" "8 \<le> length k" "length k \<le> 32"
    "length k + length iv \<le> 48"
  shows "\<exists>c1 c2. initKey T k zeroCipher = Inr c1 \<and> initIV T iv c1 = Inr c2 \<and>
           NewCipher T k iv = Inr (nextRound T c2) \<and> Cipher_inv (nextRound T c2)"
proof -
  obtain c1 where c1: "initKey T k zeroCipher = Inr c1" "length (key c1) = length k div 4"
      "reg c1 = reg zeroCipher" "buffer c1 = buffer zeroCipher" "bufpos c1 = bufpos zeroCipher"
      "length (keybox c1) = 4" "list_all (\<lambda>t. length t = 256) (keybox c1)"
    using initKey_ok [of k T zeroCipher] assms(3) by auto
  have r: "length (reg c1) = reglen" by (simp add: c1 zeroCipher_def)
  have kl: "2 \<le> length (key c1)" "length (key c1) \<le> 8"
    using assms c1(2) by simp_all
  have "length iv div 4 + length (key c1) < reglen"
    using assms c1(2) by simp
  then obtain c2 where c2: "initIV T iv c1 = Inr c2" "key c2 = key c1" "keybox c2 = keybox c1"
      "buffer c2 = buffer c1" "bufpos c2 = bufpos c1" "length (reg c2) = reglen"
    using initIV_ok [OF r, of iv T] by auto
  have nc: "NewCipher T k iv = Inr (nextRound T c2)"
    using assms by (simp add: NewCipher_def c1 c2)
  have "Cipher_inv (nextRound T c2)"
    using c1 c2 kl by (simp add: Cipher_inv_def Cipher_shape_def nextRound_frame zeroCipher_def)
  with c1(1) c2(1) nc show ?thesis by blast
qed

lemma NewCipher_Inr_valid:
  assumes "NewCipher T k iv = Inr c"
  shows "length k mod 4 = 0 \<and> length iv mod 4 = 0 \<and> 8 \<le> length k \<and> length k \<le> 32 \<and>
         length k + length iv \<le> 48"
  using assms by (simp add: NewCipher_def Let_def split: if_splits)

lemma NewCipher_Inr:
  assumes "NewCipher T k iv = Inr c"
  shows "\<exists>c1 c2. initKey T k zeroCipher = Inr c1 \<and> initIV T iv c1 = Inr c2 \<and>
           c = nextRound T c2 \<and> Cipher_inv c"
  using NewCipher_valid [of k iv T] NewCipher_Inr_valid [OF assms] assms by auto

lemma valid_test_key:
  "length test_key mod 4 = 0" "length test_iv mod 4 = 0" "8 \<le> length test_key"
  "length test_key \<le> 32" "length test_key + length test_iv \<le> 48"
  by (simp_all add: test_key_def test_iv_def)

lemma NewCipher_test: "\<exists>c. NewCipher test_tables test_key test_iv = Inr c"
  using NewCipher_valid [OF valid_test_key, of test_tables] by blast

lemma inv_test_cipher: "Cipher_inv test_cipher"
  using shape_test_cipher by (simp add: Cipher_inv_def test_cipher_def)

section \<open>Construction, stream application and the invariant\<close>

lemma step_inv:
  assumes "Cipher_inv c"
  shows "Cipher_inv (refill T c\<lparr>bufpos := bufpos (refill T c) + 1\<rparr>)"
proof -
  have "key (refill T c) = key c" "keybox (refill T c) = keybox c"
    "length (reg (refill T c)) = length (reg c)"
    by (simp_all add: refill_def nextRound_frame)
  then show ?thesis
    using assms refill_ok [OF Cipher_inv_stream_ok [OF assms], of T]
    by (simp add: Cipher_inv_def Cipher_shape_def)
qed

lemma loop_short:
  "stream_ok c \<Longrightarrow> length dst \<le> i \<Longrightarrow> XORKeyStream_loop T (s # src) i c dst = Inl IndexPanic"
  by (simp add: XORKeyStream_loop.simps(2) Let_def)

lemma loop_inv:
  "Cipher_inv c \<Longrightarrow> XORKeyStream_loop T src i c dst = Inr (c', out) \<Longrightarrow> Cipher_inv c'"
proof (induction src arbitrary: i c dst)
  case Nil
  then show ?case by simp
next
  case (Cons s src)
  have ok: "stream_ok c" by (rule Cipher_inv_stream_ok [OF Cons.prems(1)])
  have i: "i < length dst"
  proof (rule ccontr)
    assume "\<not> i < length dst"
    then have "XORKeyStream_loop T (s # src) i c dst = Inl IndexPanic"
      using loop_short [OF ok] by simp
    with Cons.prems(2) show False by simp
  qed
  show ?case
    using Cons.prems(2) Cons.IH [OF step_inv [OF Cons.prems(1)]]
    by (simp only: loop_Cons [OF ok i])
qed

text \<open>
  C3. \<open>NewCipher\<close> checks the five size constraints in the order: key length a multiple of
  4, IV length a multiple of 4, key length at least 8, key length at most 32, key plus IV
  length at most 48. It returns the error of the first one violated and a cipher exactly when
  all hold. No failure follows a successful construction: the cipher returned satisfies the
  state invariant, and on a state that satisfies it a stream application whose \<open>dst\<close> is at
  least as long as \<open>src\<close> returns normally, again with the invariant (\<open>Reset\<close> has no failure
  at all).
\<close>

theorem NewCipher_validation:
  "(if length k mod 4 \<noteq> 0
      then NewCipher T k iv = Inl (KeySizeError ''key size must be a multiple of 4'')
    else if length iv mod 4 \<noteq> 0
      then NewCipher T k iv = Inl (KeySizeError ''iv size must be a multiple of 4'')
    else if length k < 8
      then NewCipher T k iv = Inl (KeySizeError ''key size must be >= 8'')
    else if 32 < length k
      then NewCipher T k iv = Inl (KeySizeError ''key size must be <= 32'')
    else if 48 < length k + length iv
      then NewCipher T k iv = Inl (KeySizeError ''combined key and iv sizes must be <= 48'')
    else (\<exists>c0. NewCipher T k iv = Inr c0 \<and> Cipher_inv c0))
   \<and> (Cipher_inv c \<and> length src \<le> length dst \<longrightarrow>
        (\<exists>c' out. XORKeyStream T c dst src = Inr (c', out) \<and> Cipher_inv c'))"
proof (rule conjI)
  show "if length k mod 4 \<noteq> 0
      then NewCipher T k iv = Inl (KeySizeError ''key size must be a multiple of 4'')
    else if length iv mod 4 \<noteq> 0
      then NewCipher T k iv = Inl (KeySizeError ''iv size must be a multiple of 4'')
    else if length k < 8
      then NewCipher T k iv = Inl (KeySizeError ''key size must be >= 8'')
    else if 32 < length k
      then NewCipher T k iv = Inl (KeySizeError ''key size must be <= 32'')
    else if 48 < length k + length iv
      then NewCipher T k iv = Inl (KeySizeError ''combined key and iv sizes must be <= 48'')
    else (\<exists>c0. NewCipher T k iv = Inr c0 \<and> Cipher_inv c0)"
  proof (cases "length k mod 4 = 0 \<and> length iv mod 4 = 0 \<and> 8 \<le> length k \<and> length k \<le> 32
                 \<and> length k + length iv \<le> 48")
    case True
    then have v: "length k mod 4 = 0" "length iv mod 4 = 0" "8 \<le> length k" "length k \<le> 32"
      "length k + length iv \<le> 48" by simp_all
    have "\<exists>c0. NewCipher T k iv = Inr c0 \<and> Cipher_inv c0"
      using NewCipher_valid [OF v, of T] by blast
    with v show ?thesis by simp
  next
    case False
    then show ?thesis by (auto simp: NewCipher_def Let_def)
  qed
next
  show "Cipher_inv c \<and> length src \<le> length dst \<longrightarrow>
        (\<exists>c' out. XORKeyStream T c dst src = Inr (c', out) \<and> Cipher_inv c')"
    using XORKeyStream_consume [OF Cipher_inv_stream_ok, of c src dst T] consume_inv [of c T "length src"]
    by simp
qed

theorem NewCipher_validation_witness:
  "(\<exists>c0. NewCipher test_tables test_key test_iv = Inr c0 \<and> Cipher_inv c0) \<and>
   Cipher_inv test_cipher \<and>
   (\<exists>c' out. XORKeyStream test_tables test_cipher [0, 0, 0] [1, 2, 3] = Inr (c', out) \<and> Cipher_inv c') \<and>
   NewCipher test_tables [1, 2, 3, 4, 5, 6, 7] [] = Inl (KeySizeError ''key size must be a multiple of 4'') \<and>
   NewCipher test_tables [1, 2, 3, 4] [] = Inl (KeySizeError ''key size must be >= 8'')"
  using NewCipher_validation [where T = test_tables and k = test_key and iv = test_iv
      and c = test_cipher and src = "[1, 2, 3]" and dst = "[0, 0, 0]"]
    NewCipher_validation [where T = test_tables and k = "[1, 2, 3, 4, 5, 6, 7]" and iv = "[]"
      and c = test_cipher and src = "[]" and dst = "[]"]
    NewCipher_validation [where T = test_tables and k = "[1, 2, 3, 4]" and iv = "[]"
      and c = test_cipher and src = "[]" and dst = "[]"]
    inv_test_cipher
  by (simp add: test_key_def test_iv_def)

text \<open>
  C8. Construction, stream application and reset keep the state invariant: a key of 2 to 8
  words, a register of 17 words, 4 key boxes of 256 words (and a buffer of 20 bytes), and a
  cursor from 0 to 20.
\<close>

theorem Cipher_inv_preserved:
  "(NewCipher T k iv = Inr c0 \<longrightarrow> Cipher_inv c0) \<and>
   (Cipher_inv c \<and> XORKeyStream T c dst src = Inr (c', out) \<longrightarrow> Cipher_inv c') \<and>
   (Cipher_inv c \<longrightarrow> Cipher_inv (Reset c))"
proof (intro conjI impI)
  assume "NewCipher T k iv = Inr c0"
  then show "Cipher_inv c0" using NewCipher_Inr by blast
next
  assume "Cipher_inv c \<and> XORKeyStream T c dst src = Inr (c', out)"
  then show "Cipher_inv c'"
    using loop_inv [of c T src 0 dst c' out] by (simp add: XORKeyStream_def)
next
  assume "Cipher_inv c"
  then show "Cipher_inv (Reset c)"
    by (simp add: Cipher_inv_def Cipher_shape_def Reset_def list_all_iff)
qed

lemma test_stream:
  "XORKeyStream test_tables test_cipher [0, 0, 0] [1, 2, 3]
     = Inr (test_cipher\<lparr>bufpos := 8\<rparr>, [14, 18, 18])"
proof -
  have ok: "stream_ok test_cipher" by (rule Cipher_inv_stream_ok [OF inv_test_cipher])
  have len: "length [1, 2, 3 :: byte] \<le> length [0, 0, 0 :: byte]" by simp
  have c: "consume test_tables test_cipher (length [1, 2, 3 :: byte])
      = (test_cipher\<lparr>bufpos := 8\<rparr>, [15, 16, 17])"
    using consume_small [OF ok, of "length [1, 2, 3 :: byte]" test_tables]
    by (simp add: test_cipher_def)
  show ?thesis
    by (simp only: XORKeyStream_consume [OF ok len] c fst_conv snd_conv) simp
qed

theorem Cipher_inv_preserved_witness:
  "(\<exists>c0. NewCipher test_tables test_key test_iv = Inr c0 \<and> Cipher_inv c0) \<and>
   Cipher_inv test_cipher \<and>
   XORKeyStream test_tables test_cipher [0, 0, 0] [1, 2, 3]
     = Inr (test_cipher\<lparr>bufpos := 8\<rparr>, [14, 18, 18]) \<and>
   Cipher_inv (test_cipher\<lparr>bufpos := 8\<rparr>) \<and> Cipher_inv (Reset test_cipher)"
proof -
  obtain c0 where c0: "NewCipher test_tables test_key test_iv = Inr c0"
    using NewCipher_test by blast
  show ?thesis
    using c0 inv_test_cipher test_stream
      Cipher_inv_preserved [where T = test_tables and k = test_key and iv = test_iv and ?c0.0 = c0
        and c = test_cipher and dst = "[0, 0, 0]" and src = "[1, 2, 3]"
        and c' = "test_cipher\<lparr>bufpos := 8\<rparr>" and out = "[14, 18, 18]"]
    by blast
qed

section \<open>Properties of the keystream\<close>

text \<open>
  C4. With two ciphers constructed from the same key and IV, applying the stream operation
  to \<open>src\<close> with the first and to the result with the second gives \<open>src\<close> back.
\<close>

theorem XORKeyStream_involution:
  assumes "NewCipher T k iv = Inr c1" and "NewCipher T k iv = Inr c2"
    and "length dst1 = length src" and "length dst2 = length src"
  shows "\<exists>c1' c2' out. XORKeyStream T c1 dst1 src = Inr (c1', out) \<and>
           XORKeyStream T c2 dst2 out = Inr (c2', src)"
proof -
  have eq: "c2 = c1" using assms(1,2) by simp
  have ok: "stream_ok c1"
    using NewCipher_Inr [OF assms(1)] Cipher_inv_stream_ok by blast
  let ?ks = "snd (consume T c1 (length src))"
  let ?out = "map2 (XOR) src ?ks"
  have lk: "length ?ks = length src" by (rule length_consume)
  then have lo: "length ?out = length src" by simp
  have 1: "XORKeyStream T c1 dst1 src = Inr (fst (consume T c1 (length src)), ?out)"
    using XORKeyStream_consume [OF ok, of src dst1 T] assms(3) by simp
  have "XORKeyStream T c1 dst2 ?out
      = Inr (fst (consume T c1 (length ?out)), map2 (XOR) ?out (snd (consume T c1 (length ?out))))"
    using XORKeyStream_consume [OF ok, of ?out dst2 T] assms(4) lo by simp
  then have 2: "XORKeyStream T c2 dst2 ?out = Inr (fst (consume T c1 (length src)), src)"
    using map2_xor_twice [OF lk] by (simp only: lo eq)
  from 1 2 show ?thesis by blast
qed

theorem XORKeyStream_involution_witness:
  "\<exists>c c1' c2' out. NewCipher test_tables test_key test_iv = Inr c \<and>
     XORKeyStream test_tables c [0, 0, 0] [1, 2, 3] = Inr (c1', out) \<and>
     XORKeyStream test_tables c [0, 0, 0] out = Inr (c2', [1, 2, 3])"
proof -
  obtain c where c: "NewCipher test_tables test_key test_iv = Inr c"
    using NewCipher_test by blast
  have l: "length [0, 0, 0 :: byte] = length [1, 2, 3 :: byte]" by simp
  show ?thesis
    using c XORKeyStream_involution [OF c c l l] by blast
qed

text \<open>
  C5. Two ciphers constructed from the same key and IV turn the same input into the same
  output, end in the same state, and give the same \<open>n\<close> keystream bytes (the output for \<open>n\<close>
  zero bytes), whatever \<open>dst\<close> held before.
\<close>

theorem keystream_deterministic:
  assumes "NewCipher T k iv = Inr c1" and "NewCipher T k iv = Inr c2"
    and "length src \<le> length dst1" and "length src \<le> length dst2"
  shows "(\<exists>c' o1 o2. XORKeyStream T c1 dst1 src = Inr (c', o1) \<and>
            XORKeyStream T c2 dst2 src = Inr (c', o2) \<and>
            take (length src) o1 = take (length src) o2) \<and>
         (\<exists>c' ks. length ks = n \<and>
            XORKeyStream T c1 (replicate n 0) (replicate n 0) = Inr (c', ks) \<and>
            XORKeyStream T c2 (replicate n 0) (replicate n 0) = Inr (c', ks))"
proof -
  have eq: "c2 = c1" using assms(1,2) by simp
  have ok: "stream_ok c1"
    using NewCipher_Inr [OF assms(1)] Cipher_inv_stream_ok by blast
  let ?ks = "snd (consume T c1 (length src))"
  have lk: "length ?ks = length src" by (rule length_consume)
  have 1: "XORKeyStream T c1 dst1 src
      = Inr (fst (consume T c1 (length src)), map2 (XOR) src ?ks @ drop (length src) dst1)"
    by (rule XORKeyStream_consume [OF ok assms(3)])
  have 2: "XORKeyStream T c2 dst2 src
      = Inr (fst (consume T c1 (length src)), map2 (XOR) src ?ks @ drop (length src) dst2)"
    unfolding eq by (rule XORKeyStream_consume [OF ok assms(4)])
  have t: "take (length src) (map2 (XOR) src ?ks @ drop (length src) dst1)
      = take (length src) (map2 (XOR) src ?ks @ drop (length src) dst2)"
    using lk by simp
  let ?z = "replicate n (0 :: byte)"
  have 3: "XORKeyStream T c1 ?z ?z
      = Inr (fst (consume T c1 n), map2 (XOR) ?z (snd (consume T c1 n)))"
    using XORKeyStream_consume [OF ok, of ?z ?z T] by simp
  have "length (map2 (XOR) ?z (snd (consume T c1 n))) = n"
    by (simp add: length_consume)
  with 1 2 t 3 show ?thesis unfolding eq by blast
qed

theorem keystream_deterministic_witness:
  "\<exists>c c' o1 o2. NewCipher test_tables test_key test_iv = Inr c \<and>
     XORKeyStream test_tables c [0, 0, 0] [1, 2, 3] = Inr (c', o1) \<and>
     XORKeyStream test_tables c [9, 9, 9, 9] [1, 2, 3] = Inr (c', o2) \<and>
     take 3 o1 = take 3 o2"
proof -
  obtain c where c: "NewCipher test_tables test_key test_iv = Inr c"
    using NewCipher_test by blast
  have l1: "length [1, 2, 3 :: byte] \<le> length [0, 0, 0 :: byte]"
    and l2: "length [1, 2, 3 :: byte] \<le> length [9, 9, 9, 9 :: byte]" by simp_all
  have "\<exists>c' o1 o2. XORKeyStream test_tables c [0, 0, 0] [1, 2, 3] = Inr (c', o1) \<and>
     XORKeyStream test_tables c [9, 9, 9, 9] [1, 2, 3] = Inr (c', o2) \<and>
     take (length [1, 2, 3 :: byte]) o1 = take (length [1, 2, 3 :: byte]) o2"
    using keystream_deterministic [OF c c l1 l2] by blast
  then show ?thesis using c by (auto simp: numeral_3_eq_3)
qed

text \<open>
  C6. A request served in one call gives the bytes, and leaves the state, that the same
  request gives when it is split into two consecutive calls on a cipher constructed from the
  same key and IV. The lengths are arbitrary; 12 and 13 against 25 is one instance.
\<close>

theorem XORKeyStream_split:
  assumes "NewCipher T k iv = Inr c" and "NewCipher T k iv = Inr c'"
    and "length da = length sa" and "length db = length sb"
    and "length d = length sa + length sb"
  shows "\<exists>ca oa cb ob. XORKeyStream T c' da sa = Inr (ca, oa) \<and>
           XORKeyStream T ca db sb = Inr (cb, ob) \<and>
           XORKeyStream T c d (sa @ sb) = Inr (cb, oa @ ob)"
proof -
  have eq: "c' = c" using assms(1,2) by simp
  have ok: "stream_ok c"
    using NewCipher_Inr [OF assms(1)] Cipher_inv_stream_ok by blast
  let ?ca = "fst (consume T c (length sa))"
  let ?ka = "snd (consume T c (length sa))"
  let ?cb = "fst (consume T ?ca (length sb))"
  let ?kb = "snd (consume T ?ca (length sb))"
  have oka: "stream_ok ?ca" by (rule consume_ok [OF ok])
  have la: "length ?ka = length sa" and lb: "length ?kb = length sb"
    by (rule length_consume)+
  have 1: "XORKeyStream T c' da sa = Inr (?ca, map2 (XOR) sa ?ka)"
    unfolding eq using XORKeyStream_consume [OF ok, of sa da T] assms(3) by simp
  have 2: "XORKeyStream T ?ca db sb = Inr (?cb, map2 (XOR) sb ?kb)"
    using XORKeyStream_consume [OF oka, of sb db T] assms(4) by simp
  have "XORKeyStream T c d (sa @ sb)
      = Inr (fst (consume T c (length sa + length sb)),
             map2 (XOR) (sa @ sb) (snd (consume T c (length sa + length sb))))"
    using XORKeyStream_consume [OF ok, of "sa @ sb" d T] assms(5) by simp
  also have "consume T c (length sa + length sb) = (?cb, ?ka @ ?kb)"
    by (rule consume_add)
  finally have 3: "XORKeyStream T c d (sa @ sb) = Inr (?cb, map2 (XOR) sa ?ka @ map2 (XOR) sb ?kb)"
    using la by simp
  from 1 2 3 show ?thesis by blast
qed

theorem XORKeyStream_split_witness:
  "\<exists>c ca oa cb ob. NewCipher test_tables test_key test_iv = Inr c \<and>
     XORKeyStream test_tables c (replicate 12 0) (replicate 12 0) = Inr (ca, oa) \<and>
     XORKeyStream test_tables ca (replicate 13 0) (replicate 13 0) = Inr (cb, ob) \<and>
     XORKeyStream test_tables c (replicate 25 0) (replicate 25 0) = Inr (cb, oa @ ob)"
proof -
  obtain c where c: "NewCipher test_tables test_key test_iv = Inr c"
    using NewCipher_test by blast
  have l: "length (replicate 25 (0 :: byte))
      = length (replicate 12 (0 :: byte)) + length (replicate 13 (0 :: byte))" by simp
  have r: "replicate 12 0 @ replicate 13 0 = replicate 25 (0 :: byte)"
    by (simp add: replicate_add [symmetric])
  show ?thesis
    using c XORKeyStream_split [OF c c refl refl l]
    unfolding r by blast
qed




end
